theory Spec2Isabelle
  imports Main "HOL-Library.Sublist"
begin

section \<open>Python values the program works with\<close>

text \<open>
  The exceptions the program can raise, each with the message of its raise site.  The
  formatted argument of a library message (the offending string of \<^verbatim>\<open>float()\<close>) is left
  out.  \<open>StructureLoadError\<close> stands for whatever \<^verbatim>\<open>BloomFilter(path)\<close> raises when the
  file cannot be loaded.
\<close>

datatype py_error =
    ValueError string
  | OverflowError string
  | ZeroDivisionError string
  | FileNotFoundError string
  | StructureLoadError string

text \<open>
  A \<open>string\<close> is a Python \<^verbatim>\<open>str\<close> whose code points are below 256; a \<open>char\<close> is read as
  its code point.  \<open>is_space\<close> is \<^verbatim>\<open>str.isspace\<close> on that range, \<open>strip\<close> is
  \<^verbatim>\<open>str.strip()\<close>, \<open>upper\<close> is \<^verbatim>\<open>str.upper()\<close> on the ASCII letters (the other code
  points are left as they are).
\<close>

definition is_space :: "char \<Rightarrow> bool" where
  "is_space c = (c \<in> set [CHR 0x09, CHR 0x0A, CHR 0x0B, CHR 0x0C, CHR 0x0D,
                           CHR 0x1C, CHR 0x1D, CHR 0x1E, CHR 0x1F, CHR 0x20,
                           CHR 0x85, CHR 0xA0])"

definition strip :: "string \<Rightarrow> string" where
  "strip s = rev (dropWhile is_space (rev (dropWhile is_space s)))"

definition upper_char :: "char \<Rightarrow> char" where
  "upper_char c =
     (case map_of (zip ''abcdefghijklmnopqrstuvwxyz'' ''ABCDEFGHIJKLMNOPQRSTUVWXYZ'') c of
        Some u \<Rightarrow> u
      | None \<Rightarrow> c)"

definition upper :: "string \<Rightarrow> string" where
  "upper s = map upper_char s"

definition endswith :: "string \<Rightarrow> char \<Rightarrow> bool" where
  "endswith s c = (s \<noteq> [] \<and> last s = c)"

section \<open>Regular expressions with the priorities of a backtracking matcher\<close>

datatype regex =
    Chars "char list"
  | Seq regex regex
  | Alt regex regex
  | Opt regex
  | Star regex

abbreviation Plus_re :: "regex \<Rightarrow> regex" where
  "Plus_re a \<equiv> Seq a (Star a)"

text \<open>
  \<open>ends r s\<close> lists what is left of \<open>s\<close> after each way of matching \<open>r\<close> at its front, in
  the order in which the backtracking matcher of \<^verbatim>\<open>re\<close> tries them: a greedy operator
  takes more before it takes less.  An iteration of \<open>Star\<close> that consumes nothing is not
  repeated.
\<close>

function ends :: "regex \<Rightarrow> string \<Rightarrow> string list" where
  "ends (Chars cs) s = (case s of [] \<Rightarrow> [] | c # t \<Rightarrow> if c \<in> set cs then [t] else [])"
| "ends (Seq a b) s = concat (map (ends b) (ends a s))"
| "ends (Alt a b) s = ends a s @ ends b s"
| "ends (Opt a) s = ends a s @ [s]"
| "ends (Star a) s =
     concat (map (\<lambda>t. if length t < length s then ends (Star a) t else []) (ends a s)) @ [s]"
  by pat_completeness auto
termination
  by (relation "measures [\<lambda>(r, s). size r, \<lambda>(r, s). length s]") auto

declare ends.simps [simp del]

text \<open>\<^verbatim>\<open>re.search(r, s).group(0)\<close>: the first match at the leftmost position that has one.\<close>

fun re_search :: "regex \<Rightarrow> string \<Rightarrow> string option" where
  "re_search r s =
     (case ends r s of
        t # _ \<Rightarrow> Some (take (length s - length t) s)
      | [] \<Rightarrow> (case s of [] \<Rightarrow> None | _ # s' \<Rightarrow> re_search r s'))"

text \<open>\<^verbatim>\<open>re.fullmatch(r, s) is not None\<close>.\<close>

definition fullmatch :: "regex \<Rightarrow> string \<Rightarrow> bool" where
  "fullmatch r s = ([] \<in> set (ends r s))"

definition digit_re :: regex where
  "digit_re = Chars ''0123456789''"

definition sign_re :: regex where
  "sign_re = Chars ''-+''"

definition dot_re :: regex where
  "dot_re = Chars ''.''"

definition suffix_re :: regex where
  "suffix_re = Chars ''kKmMbB''"

text \<open>The pattern of the source: \<^verbatim>\<open>[-+]?(?:\d*\.*\d+)[kKmMbB]\<close>.\<close>

definition humanized_regex :: regex where
  "humanized_regex =
     Seq (Opt sign_re)
       (Seq (Seq (Star digit_re) (Seq (Star dot_re) (Plus_re digit_re))) suffix_re)"

text \<open>
  The strings that a pattern matches as a whole, and the strings that have a part that a
  pattern matches.
\<close>

inductive matches :: "regex \<Rightarrow> string \<Rightarrow> bool" where
  m_chars: "c \<in> set cs \<Longrightarrow> matches (Chars cs) [c]"
| m_seq: "matches a u \<Longrightarrow> matches b v \<Longrightarrow> matches (Seq a b) (u @ v)"
| m_alt1: "matches a u \<Longrightarrow> matches (Alt a b) u"
| m_alt2: "matches b u \<Longrightarrow> matches (Alt a b) u"
| m_opt0: "matches (Opt a) []"
| m_opt1: "matches a u \<Longrightarrow> matches (Opt a) u"
| m_star0: "matches (Star a) []"
| m_star1: "matches a u \<Longrightarrow> matches (Star a) v \<Longrightarrow> matches (Star a) (u @ v)"

definition contains_match :: "regex \<Rightarrow> string \<Rightarrow> bool" where
  "contains_match r s = (\<exists>pre w post. s = pre @ w @ post \<and> matches r w)"

text \<open>
  The pattern as the specification words it: an optional sign, digits with at most one
  decimal point, and one of K, M, B in either case.
\<close>

definition spec_regex :: regex where
  "spec_regex =
     Seq (Opt sign_re)
       (Seq (Seq (Star digit_re) (Seq (Opt dot_re) (Plus_re digit_re))) suffix_re)"

section \<open>The size hint: \<^verbatim>\<open>detect_humanized_number\<close>\<close>

text \<open>The two errors that the size-hint functions raise themselves.\<close>

definition not_found_error :: py_error where
  "not_found_error = ValueError ''No numeric humanized expression found in string.''"

definition format_error :: py_error where
  "format_error = ValueError ''Invalid humanized string format''"

definition detect_humanized_number :: "string \<Rightarrow> py_error + string" where
  "detect_humanized_number some_string =
     (case re_search humanized_regex some_string of
        None \<Rightarrow> Inl not_found_error
      | Some first_result \<Rightarrow> Inr first_result)"

section \<open>Python floats and integers\<close>

text \<open>
  A float is an IEEE binary64 value: \<open>Finite neg m e\<close> is \<open>\<plusminus> m * 2 ^ e\<close>, negative when
  \<open>neg\<close> holds.  Everything below is integer arithmetic, so that a value can be computed
  and compared with the interpreter's.
\<close>

datatype pyfloat = Finite bool nat int | Infinite bool | NaN

text \<open>The sign of a float.\<close>

fun is_negative :: "pyfloat \<Rightarrow> bool" where
  "is_negative (Finite neg m e) = neg"
| "is_negative (Infinite neg) = neg"
| "is_negative NaN = False"

fun bit_length :: "nat \<Rightarrow> nat" where
  "bit_length n = (if n = 0 then 0 else Suc (bit_length (n div 2)))"

declare bit_length.simps [simp del]

text \<open>\<open>p / q\<close> rounded to the nearest integer, a tie to the even one.\<close>

definition round_half_even :: "nat \<Rightarrow> nat \<Rightarrow> nat" where
  "round_half_even p q =
     (let f = p div q; r = p mod q
      in if 2 * r < q then f else if q < 2 * r then Suc f else if even f then f else Suc f)"

text \<open>For \<open>p, q > 0\<close>, the \<open>e\<close> with \<open>2 ^ e \<le> p / q < 2 ^ (e + 1)\<close>.\<close>

definition binade :: "nat \<Rightarrow> nat \<Rightarrow> int" where
  "binade p q =
     (let d = int (bit_length p) - int (bit_length q)
      in if q * 2 ^ nat d \<le> p * 2 ^ nat (- d) then d else d - 1)"

text \<open>
  \<open>rnd64 neg p q\<close> is the binary64 value nearest to \<open>\<plusminus> p / q\<close>, ties to even: 53
  significant bits, the exponent of the last bit not below \<open>-1074\<close>, infinity from
  \<open>2 ^ 1024\<close> on.
\<close>

definition rnd64 :: "bool \<Rightarrow> nat \<Rightarrow> nat \<Rightarrow> pyfloat" where
  "rnd64 neg p q =
     (if p = 0 then Finite neg 0 0
      else
        let sh = max (binade p q) (- 1022) - 52;
            n = round_half_even (p * 2 ^ nat (- sh)) (q * 2 ^ nat sh)
        in if 1024 < int (bit_length n) + sh then Infinite neg else Finite neg n sh)"

text \<open>The grammar of \<^verbatim>\<open>float(str)\<close> and \<^verbatim>\<open>int(str)\<close>, after the white space is stripped.\<close>

definition digitpart_re :: regex where
  "digitpart_re = Seq digit_re (Star (Seq (Opt (Chars ''_'')) digit_re))"

definition exponent_re :: regex where
  "exponent_re = Seq (Chars ''eE'') (Seq (Opt sign_re) digitpart_re)"

definition floatnumber_re :: regex where
  "floatnumber_re =
     Seq (Alt (Seq (Opt digitpart_re) (Seq dot_re digitpart_re)) (Seq digitpart_re (Opt dot_re)))
       (Opt exponent_re)"

definition infinity_re :: regex where
  "infinity_re =
     Seq (Chars ''iI'') (Seq (Chars ''nN'') (Seq (Chars ''fF'')
       (Opt (Seq (Chars ''iI'') (Seq (Chars ''nN'') (Seq (Chars ''iI'')
          (Seq (Chars ''tT'') (Chars ''yY''))))))))"

definition nan_re :: regex where
  "nan_re = Seq (Chars ''nN'') (Seq (Chars ''aA'') (Chars ''nN''))"

definition int_re :: regex where
  "int_re = Seq (Opt sign_re) digitpart_re"

definition digit_val :: "char \<Rightarrow> nat" where
  "digit_val c = of_char c - 48"

definition nat_of_digits :: "string \<Rightarrow> nat" where
  "nat_of_digits ds = foldl (\<lambda>n c. 10 * n + digit_val c) 0 ds"

definition is_neg :: "string \<Rightarrow> bool" where
  "is_neg s = (case s of [] \<Rightarrow> False | c # _ \<Rightarrow> c = CHR ''-'')"

definition unsigned :: "string \<Rightarrow> string" where
  "unsigned s = (case s of [] \<Rightarrow> [] | c # t \<Rightarrow> if c \<in> set ''-+'' then t else s)"

definition no_underscores :: "string \<Rightarrow> string" where
  "no_underscores s = filter (\<lambda>c. c \<noteq> CHR ''_'') s"

text \<open>The value of a signed run of digits, as in an exponent or an integer literal.\<close>

definition int_of_digits :: "string \<Rightarrow> int" where
  "int_of_digits s =
     (let n = int (nat_of_digits (no_underscores (unsigned s)))
      in if is_neg s then - n else n)"

text \<open>
  \<^verbatim>\<open>float(s)\<close>.  A literal \<open>digits.fraction E exponent\<close> is the decimal
  \<open>digits fraction * 10 ^ (exponent - length fraction)\<close>, correctly rounded.
\<close>

definition float_of_literal :: "bool \<Rightarrow> string \<Rightarrow> pyfloat" where
  "float_of_literal neg body =
     (let mant = takeWhile (\<lambda>c. c \<notin> set ''eE'') body;
          expo = drop (Suc (length mant)) body;
          ipart = takeWhile (\<lambda>c. c \<noteq> CHR ''.'') mant;
          fpart = drop (Suc (length ipart)) mant;
          digits = nat_of_digits (no_underscores (ipart @ fpart));
          k = int_of_digits expo - int (length (no_underscores fpart))
      in rnd64 neg (digits * 10 ^ nat k) (10 ^ nat (- k)))"

definition float_of_stripped :: "string \<Rightarrow> py_error + pyfloat" where
  "float_of_stripped t =
     (if fullmatch (Seq (Opt sign_re) floatnumber_re) t
        then Inr (float_of_literal (is_neg t) (unsigned t))
      else if fullmatch (Seq (Opt sign_re) infinity_re) t then Inr (Infinite (is_neg t))
      else if fullmatch (Seq (Opt sign_re) nan_re) t then Inr NaN
      else Inl (ValueError ''could not convert string to float''))"

definition py_float :: "string \<Rightarrow> py_error + pyfloat" where
  "py_float s = float_of_stripped (strip s)"

text \<open>\<^verbatim>\<open>int(s)\<close> for a string, base 10.\<close>

definition int_of_stripped :: "string \<Rightarrow> py_error + int" where
  "int_of_stripped t =
     (if fullmatch int_re t then Inr (int_of_digits t)
      else Inl (ValueError ''invalid literal for int() with base 10''))"

definition py_int :: "string \<Rightarrow> py_error + int" where
  "py_int s = int_of_stripped (strip s)"

text \<open>\<^verbatim>\<open>x * k\<close> for a float \<open>x\<close> and a positive integer \<open>k\<close> that a float holds exactly.\<close>

fun float_mul :: "pyfloat \<Rightarrow> nat \<Rightarrow> pyfloat" where
  "float_mul (Finite neg m e) k = rnd64 neg (m * k * 2 ^ nat e) (2 ^ nat (- e))"
| "float_mul (Infinite neg) k = Infinite neg"
| "float_mul NaN k = NaN"

text \<open>\<^verbatim>\<open>int(x)\<close> for a float: truncation toward zero.\<close>

fun int_of_float :: "pyfloat \<Rightarrow> py_error + int" where
  "int_of_float (Finite neg m e) =
     (let v = int (m * 2 ^ nat e div 2 ^ nat (- e)) in Inr (if neg then - v else v))"
| "int_of_float (Infinite neg) = Inl (OverflowError ''cannot convert float infinity to integer'')"
| "int_of_float NaN = Inl (ValueError ''cannot convert float NaN to integer'')"

text \<open>\<^verbatim>\<open>a / b\<close> for integers: the quotient, correctly rounded.\<close>

definition int_truediv :: "int \<Rightarrow> int \<Rightarrow> py_error + pyfloat" where
  "int_truediv a b =
     (if b = 0 then Inl (ZeroDivisionError ''division by zero'')
      else
        (case rnd64 ((a < 0) \<noteq> (b < 0)) (nat \<bar>a\<bar>) (nat \<bar>b\<bar>) of
           Infinite _ \<Rightarrow> Inl (OverflowError ''integer division result too large for a float'')
         | x \<Rightarrow> Inr x))"

section \<open>The size hint: \<^verbatim>\<open>parse_humanized_string\<close>\<close>

definition multipliers :: "(char \<times> nat) list" where
  "multipliers = [(CHR ''K'', 10 ^ 3), (CHR ''M'', 10 ^ 6), (CHR ''B'', 10 ^ 9)]"

text \<open>The loop over the suffixes: \<open>None\<close> when it ends without returning.\<close>

fun parse_suffixes :: "string \<Rightarrow> (char \<times> nat) list \<Rightarrow> (py_error + int) option" where
  "parse_suffixes s [] = None"
| "parse_suffixes s ((sfx, multiplier) # rest) =
     (if endswith (upper s) sfx then
        Some (case py_float (butlast s) of
                Inl e \<Rightarrow> Inl e
              | Inr x \<Rightarrow> int_of_float (float_mul x multiplier))
      else parse_suffixes s rest)"

definition parse_humanized_string :: "string \<Rightarrow> py_error + int" where
  "parse_humanized_string humanized_string =
     (let s = upper (strip humanized_string)
      in case parse_suffixes s multipliers of
           Some r \<Rightarrow> r
         | None \<Rightarrow>
             (case py_int s of
                Inl _ \<Rightarrow> Inl format_error
              | Inr n \<Rightarrow> Inr n))"

section \<open>Sampling: \<^verbatim>\<open>sample_bz2\<close>\<close>

text \<open>
  The random generator is a state: the raw values it will yield, one for each call.
  \<^verbatim>\<open>random.randrange(n)\<close> raises on an empty range, and otherwise reduces the next raw
  value into \<open>[0, n)\<close>; every value of the range is the draw of some generator.
\<close>

type_synonym rng = "nat \<Rightarrow> nat"

definition randrange :: "int \<Rightarrow> rng \<Rightarrow> py_error + int \<times> rng" where
  "randrange n g =
     (if n \<le> 0 then Inl (ValueError ''empty range for randrange()'')
      else Inr (int (g 0) mod n, \<lambda>i. g (Suc i)))"

text \<open>The draw that the loop makes for the line of index \<open>i\<close>, from the generator \<open>g\<close> it starts with.\<close>

definition draw :: "int \<Rightarrow> rng \<Rightarrow> nat \<Rightarrow> int" where
  "draw num g i = int (g i) mod num"

text \<open>The loop over the lines of the file, \<open>chosen\<close> being the list \<^verbatim>\<open>chosen_lines\<close>.\<close>

fun sample_loop :: "int \<Rightarrow> rng \<Rightarrow> 'a list \<Rightarrow> 'a list \<Rightarrow> py_error + 'a list" where
  "sample_loop num g [] chosen = Inr chosen"
| "sample_loop num g (aline # rest) chosen =
     (case randrange num g of
        Inl e \<Rightarrow> Inl e
      | Inr (r, g') \<Rightarrow>
          if r \<noteq> 0 then sample_loop num g' rest chosen
          else sample_loop num g' rest (chosen @ [aline]))"

text \<open>\<^verbatim>\<open>int(total_lines/num_lines)\<close>: true division, then truncation.\<close>

definition stride :: "int \<Rightarrow> int \<Rightarrow> py_error + int" where
  "stride total_lines num_lines =
     (case int_truediv total_lines num_lines of
        Inl e \<Rightarrow> Inl e
      | Inr x \<Rightarrow> int_of_float x)"

text \<open>\<^verbatim>\<open>parse_humanized_string(detect_humanized_number(file_path))\<close>.\<close>

definition size_hint :: "string \<Rightarrow> py_error + int" where
  "size_hint file_path =
     (case detect_humanized_number file_path of
        Inl e \<Rightarrow> Inl e
      | Inr token \<Rightarrow> parse_humanized_string token)"

text \<open>
  \<open>afile\<close> is the sequence of lines of the compressed file, which is taken to open and to
  decompress; \<open>g\<close> is the state of the random generator at the call.
\<close>

definition sample_bz2 :: "string \<Rightarrow> int \<Rightarrow> rng \<Rightarrow> 'a list \<Rightarrow> py_error + 'a list" where
  "sample_bz2 file_path num_lines g afile =
     (case size_hint file_path of
        Inl e \<Rightarrow> Inl e
      | Inr total_lines \<Rightarrow>
          (case stride total_lines num_lines of
             Inl e \<Rightarrow> Inl e
           | Inr num \<Rightarrow> sample_loop num g afile []))"

section \<open>Filtering: \<^verbatim>\<open>bloom_match\<close>\<close>

text \<open>
  What the program reads from its environment: the expansion of a glob pattern, the lines
  of a text file (\<open>None\<close> when it cannot be opened), and the membership test of the Bloom
  filter stored at a path (\<open>None\<close> when it cannot be loaded).
\<close>

record world =
  glob_of :: "string \<Rightarrow> string list"
  lines_of :: "string \<Rightarrow> string list option"
  bloom_of :: "string \<Rightarrow> (string \<Rightarrow> bool) option"

text \<open>
  \<^verbatim>\<open>Path(p).stem\<close> for a POSIX path: the last component that is neither empty nor a dot,
  up to its last dot when that dot is neither its first nor its last character.
\<close>

fun split_sep :: "string \<Rightarrow> string list" where
  "split_sep [] = [[]]"
| "split_sep (c # s) =
     (if c = CHR ''/'' then [] # split_sep s
      else (case split_sep s of [] \<Rightarrow> [[c]] | x # xs \<Rightarrow> (c # x) # xs))"

definition path_name :: "string \<Rightarrow> string" where
  "path_name p =
     (case filter (\<lambda>x. x \<noteq> [] \<and> x \<noteq> ''.'') (split_sep p) of
        [] \<Rightarrow> []
      | parts \<Rightarrow> last parts)"

definition rfind_dot :: "string \<Rightarrow> nat option" where
  "rfind_dot name =
     (case filter (\<lambda>i. name ! i = CHR ''.'') (rev [0..<length name]) of
        [] \<Rightarrow> None
      | i # _ \<Rightarrow> Some i)"

definition stem :: "string \<Rightarrow> string" where
  "stem p =
     (let name = path_name p
      in case rfind_dot name of
           None \<Rightarrow> name
         | Some i \<Rightarrow> if 0 < i \<and> Suc i < length name then take i name else name)"

text \<open>A Python dictionary with string keys, in insertion order.\<close>

type_synonym 'v dict = "(string \<times> 'v) list"

text \<open>\<^verbatim>\<open>d[k] = v\<close>: a key that is present keeps its place.\<close>

fun dict_set :: "string \<Rightarrow> 'v \<Rightarrow> 'v dict \<Rightarrow> 'v dict" where
  "dict_set k v [] = [(k, v)]"
| "dict_set k v ((k', v') # d) = (if k' = k then (k, v) # d else (k', v') # dict_set k v d)"

text \<open>\<^verbatim>\<open>d.update(other)\<close>.\<close>

definition dict_update :: "'v dict \<Rightarrow> 'v dict \<Rightarrow> 'v dict" where
  "dict_update d other = foldl (\<lambda>d (k, v). dict_set k v d) d other"

text \<open>\<^verbatim>\<open>d[k].append(x)\<close> for a key that is present.\<close>

definition dict_append :: "string \<Rightarrow> 'a \<Rightarrow> 'a list dict \<Rightarrow> 'a list dict" where
  "dict_append k x d = map (\<lambda>(k', v). if k' = k then (k', v @ [x]) else (k', v)) d"

text \<open>The loop of \<^verbatim>\<open>bloom_match\<close> over the queries, \<open>results\<close> being its list.\<close>

fun bloom_loop :: "(string \<Rightarrow> bool) \<Rightarrow> string list \<Rightarrow> string list \<Rightarrow> string list" where
  "bloom_loop bf [] results = results"
| "bloom_loop bf (smile # rest) results =
     (if bf smile then bloom_loop bf rest (results @ [smile]) else bloom_loop bf rest results)"

definition bloom_match :: "world \<Rightarrow> string \<Rightarrow> string list \<Rightarrow> py_error + string list dict" where
  "bloom_match w bloom_file smiles_iterable =
     (case bloom_of w bloom_file of
        None \<Rightarrow> Inl (StructureLoadError bloom_file)
      | Some bf \<Rightarrow> Inr [(stem bloom_file, bloom_loop bf smiles_iterable [])])"

section \<open>Fan-out and merge: \<^verbatim>\<open>find_matches\<close>\<close>

text \<open>
  \<^verbatim>\<open>pool.map(f, xs, chunksize=1)\<close>, embedded sequentially: the results come back in the
  order of \<open>xs\<close>, whatever the number of processes, and a task that raises makes the call
  raise.
\<close>

fun pool_map :: "('a \<Rightarrow> py_error + 'b) \<Rightarrow> 'a list \<Rightarrow> py_error + 'b list" where
  "pool_map f [] = Inr []"
| "pool_map f (x # xs) =
     (case f x of
        Inl e \<Rightarrow> Inl e
      | Inr y \<Rightarrow> (case pool_map f xs of Inl e \<Rightarrow> Inl e | Inr ys \<Rightarrow> Inr (y # ys)))"

definition n_processes :: "int \<Rightarrow> string list \<Rightarrow> int" where
  "n_processes num_procs filter_files =
     (if num_procs < 1 then int (length filter_files) else num_procs)"

text \<open>The loop that fills the key \<^verbatim>\<open>"unmatched"\<close>.\<close>

fun unmatched_loop :: "string list \<Rightarrow> string list \<Rightarrow> string list dict \<Rightarrow> string list dict" where
  "unmatched_loop matched [] results_dict = results_dict"
| "unmatched_loop matched (smile # rest) results_dict =
     (if smile \<notin> set matched
      then unmatched_loop matched rest (dict_append ''unmatched'' smile results_dict)
      else unmatched_loop matched rest results_dict)"

definition add_unmatched :: "string list \<Rightarrow> string list dict \<Rightarrow> string list dict" where
  "add_unmatched smiles results_dict =
     (let d = dict_set ''unmatched'' [] results_dict;
          matched = concat (map snd d)
      in unmatched_loop matched smiles d)"

text \<open>
  A run of \<^verbatim>\<open>find_matches\<close> yields the paths handed to the pool and either the exception
  that ends the run, \<^verbatim>\<open>out_file\<close> being untouched, or the dictionary that is dumped to
  \<^verbatim>\<open>out_file\<close>.
\<close>

definition find_matches ::
  "world \<Rightarrow> string \<Rightarrow> int \<Rightarrow> string \<Rightarrow> bool \<Rightarrow> string list \<times> (py_error + string list dict)" where
  "find_matches w glob_exp num_procs smiles_file include_unmatched =
     (let filter_files = glob_of w glob_exp
      in if filter_files = []
         then ([], Inl (ValueError (''No bloom filters found using the glob expression: '' @ glob_exp)))
         else
           (case lines_of w smiles_file of
              None \<Rightarrow> ([], Inl (FileNotFoundError smiles_file))
            | Some in_file \<Rightarrow>
                let smiles = map strip in_file
                in (filter_files,
                    case pool_map (\<lambda>f. bloom_match w f smiles) filter_files of
                      Inl e \<Rightarrow> Inl e
                    | Inr results \<Rightarrow>
                        let results_dict = foldl dict_update [] results
                        in Inr (if include_unmatched then add_unmatched smiles results_dict
                                else results_dict))))"

text \<open>
  Reading a result: the matched sequences are the values at the keys other than
  \<^verbatim>\<open>"unmatched"\<close>, here one after the other.
\<close>

definition matched_of :: "string list dict \<Rightarrow> string list" where
  "matched_of d = concat (map snd (filter (\<lambda>(k, v). k \<noteq> ''unmatched'') d))"

text \<open>
  Three environments to run the coordinator in.  The first is the scenario of the
  specification: \<open>A.bloom\<close> holds \<open>CCO\<close>, \<open>B.bloom\<close> holds \<open>CCN\<close>, the queries are
  \<open>CCO\<close>, \<open>CCN\<close>, \<open>CCC\<close>.  In the second, two paths have the stem \<open>A\<close>; in the third,
  two paths have the stem \<open>unmatched\<close>.
\<close>

definition scenario_world :: world where
  "scenario_world =
     \<lparr>glob_of = (\<lambda>_. [''A.bloom'', ''B.bloom'']),
      lines_of = (\<lambda>_. Some [''CCO'', ''CCN'', ''CCC'']),
      bloom_of = (\<lambda>p. if p = ''A.bloom'' then Some (\<lambda>s. s = ''CCO'')
                       else if p = ''B.bloom'' then Some (\<lambda>s. s = ''CCN'') else None)\<rparr>"

definition duplicate_world :: world where
  "duplicate_world =
     \<lparr>glob_of = (\<lambda>_. [''x/A.bloom'', ''y/A.bloom'']),
      lines_of = (\<lambda>_. Some [''CCO'', ''CCN'', ''CCC'']),
      bloom_of = (\<lambda>p. if p = ''x/A.bloom'' then Some (\<lambda>s. s = ''CCO'')
                       else if p = ''y/A.bloom'' then Some (\<lambda>s. s = ''CCN'') else None)\<rparr>"

definition reserved_world :: world where
  "reserved_world =
     \<lparr>glob_of = (\<lambda>_. [''x/unmatched.bloom'', ''y/unmatched.bloom'']),
      lines_of = (\<lambda>_. Some [''CCO'', ''CCN'', ''CCC'']),
      bloom_of = (\<lambda>p. if p = ''x/unmatched.bloom'' then Some (\<lambda>s. s = ''CCO'')
                       else if p = ''y/unmatched.bloom'' then Some (\<lambda>s. s = ''CCN'')
                       else None)\<rparr>"

section \<open>Evaluation on concrete inputs\<close>

lemmas string_eval = strip_def is_space_def upper_def upper_char_def endswith_def

lemmas regex_eval = ends.simps fullmatch_def humanized_regex_def digit_re_def sign_re_def dot_re_def
  suffix_re_def digitpart_re_def exponent_re_def floatnumber_re_def infinity_re_def nan_re_def
  int_re_def

lemmas float_eval = rnd64_def binade_def bit_length.simps round_half_even_def
  float_of_literal_def nat_of_digits_def digit_val_def is_neg_def unsigned_def
  no_underscores_def int_of_digits_def float_of_stripped_def py_float_def int_of_stripped_def py_int_def
  int_truediv_def Let_def

lemmas hint_eval = detect_humanized_number_def parse_humanized_string_def multipliers_def
  size_hint_def not_found_error_def format_error_def

lemmas path_eval = stem_def path_name_def rfind_dot_def

lemmas run_eval = find_matches_def bloom_match_def dict_update_def add_unmatched_def
  dict_append_def matched_of_def scenario_world_def duplicate_world_def reserved_world_def

section \<open>The size hint on the documented tokens\<close>

text \<open>
  C3: extraction followed by numeric conversion yields 128000, 5000000 and 2000000000 on
  \<open>128K\<close>, \<open>5M\<close> and \<open>2B\<close>.  On \<open>42\<close> the numeric conversion alone yields 42; the
  extraction does not accept it (see the counterexample).
\<close>

theorem size_hint_documented_tokens:
  "size_hint ''128K'' = Inr 128000
   \<and> size_hint ''5M'' = Inr 5000000
   \<and> size_hint ''2B'' = Inr 2000000000
   \<and> parse_humanized_string ''42'' = Inr 42"
  by (simp add: string_eval regex_eval float_eval hint_eval)

theorem size_hint_bare_integer_counterexample:
  "detect_humanized_number ''42'' = Inl not_found_error \<and> size_hint ''42'' \<noteq> Inr 42"
  by (simp add: regex_eval hint_eval)

text \<open>
  C10: in \<open>REAL_1..5M.bz2\<close> the detector finds the token \<open>1..5M\<close>, and the numeric
  conversion of that token fails in \<^verbatim>\<open>float()\<close>: with an error that is neither of the two
  the size-hint functions raise themselves.
\<close>

theorem detected_token_not_convertible:
  "detect_humanized_number ''REAL_1..5M.bz2'' = Inr ''1..5M''
   \<and> parse_humanized_string ''1..5M'' = Inl (ValueError ''could not convert string to float'')
   \<and> ValueError ''could not convert string to float'' \<noteq> not_found_error
   \<and> ValueError ''could not convert string to float'' \<noteq> format_error"
  by (simp add: string_eval regex_eval float_eval hint_eval)

section \<open>The detector\<close>

inductive_simps matches_Chars: "matches (Chars cs) w"
inductive_simps matches_Seq: "matches (Seq a b) w"
inductive_simps matches_Alt: "matches (Alt a b) w"
inductive_simps matches_Opt: "matches (Opt a) w"

lemma ends_sound: "t \<in> set (ends r s) \<Longrightarrow> \<exists>u. s = u @ t \<and> matches r u"
proof (induction r s arbitrary: t rule: ends.induct)
  case (1 cs s)
  then obtain c where "s = c # t" "c \<in> set cs"
    by (cases s) (auto simp: ends.simps split: if_splits)
  then have "s = [c] @ t" "matches (Chars cs) [c]"
    by (auto intro: m_chars)
  then show ?case by blast
next
  case (2 a b s)
  from "2.prems" obtain m where m: "m \<in> set (ends a s)" and t: "t \<in> set (ends b m)"
    by (auto simp: ends.simps)
  from "2.IH"(1) [OF m] obtain u where u: "s = u @ m" "matches a u" by blast
  from "2.IH"(2) [OF m t] obtain v where v: "m = v @ t" "matches b v" by blast
  from u v have "s = (u @ v) @ t" "matches (Seq a b) (u @ v)"
    by (auto intro: m_seq)
  then show ?case by blast
next
  case (3 a b s)
  from "3.prems" consider "t \<in> set (ends a s)" | "t \<in> set (ends b s)"
    by (auto simp: ends.simps)
  then show ?case
  proof cases
    case 1
    from "3.IH"(1) [OF this] show ?thesis by (blast intro: m_alt1)
  next
    case 2
    from "3.IH"(2) [OF this] show ?thesis by (blast intro: m_alt2)
  qed
next
  case (4 a s)
  from "4.prems" consider "t \<in> set (ends a s)" | "t = s"
    by (auto simp: ends.simps)
  then show ?case
  proof cases
    case 1
    from "4.IH" [OF this] show ?thesis by (blast intro: m_opt1)
  next
    case 2
    then show ?thesis by (auto intro: m_opt0)
  qed
next
  case (5 a s)
  from "5.prems" have "t \<in> set (concat (map (\<lambda>t. if length t < length s then ends (Star a) t else [])
      (ends a s)) @ [s])"
    by (subst (asm) ends.simps)
  then consider "t = s"
    | m where "m \<in> set (ends a s)" "length m < length s" "t \<in> set (ends (Star a) m)"
    by (auto split: if_splits)
  then show ?case
  proof cases
    case 1
    then show ?thesis by (auto intro: m_star0)
  next
    case (2 m)
    from "5.IH"(1) [OF 2(1)] obtain u where u: "s = u @ m" "matches a u" by blast
    from "5.IH"(2) [OF 2] obtain v where v: "m = v @ t" "matches (Star a) v" by blast
    from u v have "s = (u @ v) @ t" "matches (Star a) (u @ v)"
      by (auto intro: m_star1)
    then show ?thesis by blast
  qed
qed


lemma re_search_sound:
  "re_search r s = Some token \<Longrightarrow> matches r token \<and> (\<exists>pre post. s = pre @ token @ post)"
proof (induction r s rule: re_search.induct)
  case (1 r s)
  show ?case
  proof (cases "ends r s")
    case Nil
    with "1.prems" obtain c s' where s: "s = c # s'" and r: "re_search r s' = Some token"
      by (auto split: list.splits)
    from "1.IH" [OF Nil s r] obtain pre post where "matches r token" "s' = pre @ token @ post"
      by blast
    with s have "matches r token" "s = (c # pre) @ token @ post" by simp_all
    then show ?thesis by blast
  next
    case (Cons t ts)
    with "1.prems" have token: "token = take (length s - length t) s" by simp
    from Cons have "t \<in> set (ends r s)" by simp
    from ends_sound [OF this] obtain u where "s = u @ t" "matches r u" by blast
    with token have "matches r token" "s = [] @ token @ t" by simp_all
    then show ?thesis by blast
  qed
qed

lemma matches_Star_Chars: "matches r w \<Longrightarrow> r = Star (Chars cs) \<Longrightarrow> set w \<subseteq> set cs"
  by (induction rule: matches.induct) (auto simp: matches_Chars)

lemma matches_humanized_parts:
  assumes "matches humanized_regex token"
  obtains sg d1 dots dg d2 sf where
    "token = sg @ ((d1 @ dots @ dg @ d2) @ sf)"
    and "matches (Opt sign_re) sg"
    and "matches (Star digit_re) d1"
    and "matches (Star dot_re) dots"
    and "matches digit_re dg"
    and "matches (Star digit_re) d2"
    and "matches suffix_re sf"
  using assms unfolding humanized_regex_def by (simp only: matches_Seq) blast

lemma humanized_contains_spec:
  assumes "matches humanized_regex token"
  shows "contains_match spec_regex token"
proof -
  from assms obtain sg d1 dots dg d2 sf where
    token: "token = sg @ ((d1 @ dots @ dg @ d2) @ sf)"
    and dg: "matches digit_re dg"
    and d2: "matches (Star digit_re) d2"
    and sf: "matches suffix_re sf"
    by (rule matches_humanized_parts)
  have p: "matches (Plus_re digit_re) (dg @ d2)"
    using dg d2 by (rule m_seq)
  have q: "matches (Seq (Opt dot_re) (Plus_re digit_re)) ([] @ dg @ d2)"
    using m_opt0 p by (rule m_seq)
  have r: "matches (Seq (Star digit_re) (Seq (Opt dot_re) (Plus_re digit_re))) ([] @ [] @ dg @ d2)"
    using m_star0 q by (rule m_seq)
  have "matches (Seq (Seq (Star digit_re) (Seq (Opt dot_re) (Plus_re digit_re))) suffix_re)
      (([] @ [] @ dg @ d2) @ sf)"
    using r sf by (rule m_seq)
  with m_opt0 have "matches spec_regex ([] @ (([] @ [] @ dg @ d2) @ sf))"
    unfolding spec_regex_def by (rule m_seq)
  then have "matches spec_regex (dg @ d2 @ sf)"
    by simp
  moreover have "token = (sg @ d1 @ dots) @ (dg @ d2 @ sf) @ []"
    using token by simp
  ultimately show ?thesis
    unfolding contains_match_def by blast
qed

lemma Star_Chars_avoids:
  "matches (Star (Chars cs)) w \<Longrightarrow> c \<notin> set cs \<Longrightarrow> c \<notin> set w"
  using matches_Star_Chars [of "Star (Chars cs)" w cs] by auto

lemma Chars_avoids:
  "matches (Chars cs) w \<Longrightarrow> c \<notin> set cs \<Longrightarrow> c \<notin> set w"
  by (auto simp: matches_Chars)

lemma humanized_minus_only_first:
  assumes "matches humanized_regex token" and "hd token \<noteq> CHR ''-''"
  shows "CHR ''-'' \<notin> set token"
proof -
  from assms(1) obtain sg d1 dots dg d2 sf where
    token: "token = sg @ ((d1 @ dots @ dg @ d2) @ sf)"
    and sg: "matches (Opt sign_re) sg"
    and d1: "matches (Star digit_re) d1"
    and dots: "matches (Star dot_re) dots"
    and dg: "matches digit_re dg"
    and d2: "matches (Star digit_re) d2"
    and sf: "matches suffix_re sf"
    by (rule matches_humanized_parts)
  have nd: "CHR ''-'' \<notin> set ''0123456789''" and ndot: "CHR ''-'' \<notin> set ''.''"
    and nsf: "CHR ''-'' \<notin> set ''kKmMbB''"
    by simp_all
  have 1: "CHR ''-'' \<notin> set d1"
    using d1 nd unfolding digit_re_def by (rule Star_Chars_avoids)
  have 2: "CHR ''-'' \<notin> set dots"
    using dots ndot unfolding dot_re_def by (rule Star_Chars_avoids)
  have 3: "CHR ''-'' \<notin> set dg"
    using dg nd unfolding digit_re_def by (rule Chars_avoids)
  have 4: "CHR ''-'' \<notin> set d2"
    using d2 nd unfolding digit_re_def by (rule Star_Chars_avoids)
  have 5: "CHR ''-'' \<notin> set sf"
    using sf nsf unfolding suffix_re_def by (rule Chars_avoids)
  from sg consider "sg = []" | c where "sg = [c]"
    by (auto simp: matches_Opt matches_Chars sign_re_def)
  then have "CHR ''-'' \<notin> set sg"
  proof cases
    case 1
    then show ?thesis by simp
  next
    case 2
    with token have "hd token = c" by simp
    with assms(2) 2 show ?thesis by simp
  qed
  with 1 2 3 4 5 show ?thesis
    unfolding token by simp
qed


subsection \<open>Strings without a token\<close>

lemma contains_match_substring:
  "contains_match r token \<Longrightarrow> s = pre @ token @ post \<Longrightarrow> contains_match r s"
proof -
  assume "contains_match r token" and s: "s = pre @ token @ post"
  then obtain p w q where "token = p @ w @ q" "matches r w"
    unfolding contains_match_def by blast
  with s have "s = (pre @ p) @ w @ (q @ post)" "matches r w" by simp_all
  then show ?thesis unfolding contains_match_def by blast
qed

text \<open>
  C5: on a string no part of which matches the pattern of the specification,
  \<^verbatim>\<open>detect_humanized_number\<close> raises its not-found error and returns no token.
\<close>

theorem detect_not_found:
  assumes "\<not> contains_match spec_regex some_string"
  shows "detect_humanized_number some_string = Inl not_found_error"
proof (cases "re_search humanized_regex some_string")
  case None
  then show ?thesis by (simp add: detect_humanized_number_def)
next
  case (Some token)
  from re_search_sound [OF Some] obtain pre post where
    m: "matches humanized_regex token" and s: "some_string = pre @ token @ post"
    by blast
  from humanized_contains_spec [OF m] s have "contains_match spec_regex some_string"
    by (rule contains_match_substring)
  with assms show ?thesis by contradiction
qed

lemma spec_match_has_suffix:
  assumes "matches spec_regex w"
  shows "\<exists>c\<in>set w. c \<in> set ''kKmMbB''"
proof -
  from assms obtain sg d1 dot dg d2 sf where
    w: "w = sg @ ((d1 @ dot @ dg @ d2) @ sf)" and sf: "matches suffix_re sf"
    unfolding spec_regex_def by (simp only: matches_Seq) blast
  from sf obtain c where c: "sf = [c]" "c \<in> set ''kKmMbB''"
    unfolding suffix_re_def matches_Chars by blast
  from w c(1) have "c \<in> set w" by simp
  with c(2) show ?thesis by blast
qed

lemma contains_spec_has_suffix:
  assumes "contains_match spec_regex s"
  shows "\<exists>c\<in>set s. c \<in> set ''kKmMbB''"
proof -
  from assms obtain pre w post where s: "s = pre @ w @ post" and "matches spec_regex w"
    unfolding contains_match_def by blast
  from spec_match_has_suffix [OF this(2)] obtain c where "c \<in> set w" "c \<in> set ''kKmMbB''"
    by blast
  with s have "c \<in> set s" "c \<in> set ''kKmMbB''" by simp_all
  then show ?thesis by blast
qed

theorem detect_not_found_witness:
  "\<not> contains_match spec_regex ''file_42.txt''
   \<and> detect_humanized_number ''file_42.txt'' = Inl not_found_error"
proof -
  have "\<not> (\<exists>c\<in>set ''file_42.txt''. c \<in> set ''kKmMbB'')"
    by simp
  then have h: "\<not> contains_match spec_regex ''file_42.txt''"
    using contains_spec_has_suffix by blast
  from detect_not_found [OF h] h show ?thesis by simp
qed

subsection \<open>The sign of the size hint\<close>

lemma rnd64_sign: "is_negative (rnd64 neg p q) = neg"
  by (simp add: rnd64_def Let_def)

lemma float_mul_sign: "is_negative (float_mul x k) = is_negative x"
  by (cases x) (simp_all add: rnd64_sign)

lemma int_of_float_nonneg: "int_of_float x = Inr n \<Longrightarrow> \<not> is_negative x \<Longrightarrow> 0 \<le> n"
  by (cases x) (auto simp: Let_def)

lemma set_strip: "set (strip s) \<subseteq> set s"
proof -
  have "set (strip s) \<subseteq> set (dropWhile is_space s)"
    unfolding strip_def using set_dropWhileD [of _ is_space "rev (dropWhile is_space s)"] by auto
  also have "\<dots> \<subseteq> set s"
    using set_dropWhileD [of _ is_space s] by auto
  finally show ?thesis .
qed

lemma is_neg_iff: "is_neg t \<Longrightarrow> CHR ''-'' \<in> set t"
  by (cases t) (auto simp: is_neg_def)

lemma py_float_nonneg:
  assumes "CHR ''-'' \<notin> set s" and "py_float s = Inr x"
  shows "\<not> is_negative x"
proof -
  from assms(1) set_strip [of s] have "\<not> is_neg (strip s)"
    using is_neg_iff by blast
  with assms(2) show ?thesis
    by (auto simp: py_float_def float_of_stripped_def float_of_literal_def rnd64_sign Let_def
        split: if_splits)
qed

lemma py_int_nonneg:
  assumes "CHR ''-'' \<notin> set s" and "py_int s = Inr n"
  shows "0 \<le> n"
proof -
  from assms(1) set_strip [of s] have "\<not> is_neg (strip s)"
    using is_neg_iff by blast
  with assms(2) show ?thesis
    by (auto simp: py_int_def int_of_stripped_def int_of_digits_def Let_def split: if_splits)
qed

lemma upper_char_cases: "upper_char c = c \<or> upper_char c \<in> set ''ABCDEFGHIJKLMNOPQRSTUVWXYZ''"
proof (cases "map_of (zip ''abcdefghijklmnopqrstuvwxyz'' ''ABCDEFGHIJKLMNOPQRSTUVWXYZ'') c")
  case None
  then show ?thesis by (simp add: upper_char_def)
next
  case (Some u)
  then have "(c, u) \<in> set (zip ''abcdefghijklmnopqrstuvwxyz'' ''ABCDEFGHIJKLMNOPQRSTUVWXYZ'')"
    by (rule map_of_SomeD)
  then have "u \<in> set ''ABCDEFGHIJKLMNOPQRSTUVWXYZ''"
    by (rule set_zip_rightD)
  with Some show ?thesis by (simp only: upper_char_def option.case) blast
qed

lemma minus_not_upper: "CHR ''-'' \<notin> set s \<Longrightarrow> CHR ''-'' \<notin> set (upper s)"
proof
  assume no: "CHR ''-'' \<notin> set s" and "CHR ''-'' \<in> set (upper s)"
  then obtain c where c: "c \<in> set s" "upper_char c = CHR ''-''"
    by (auto simp: upper_def)
  have "CHR ''-'' \<notin> set ''ABCDEFGHIJKLMNOPQRSTUVWXYZ''"
    by simp
  with upper_char_cases [of c] c(2) have "c = CHR ''-''"
    by metis
  with c(1) no show False by simp
qed

lemma parse_suffixes_nonneg:
  "CHR ''-'' \<notin> set s \<Longrightarrow> parse_suffixes s ms = Some (Inr n) \<Longrightarrow> 0 \<le> n"
proof (induction ms)
  case Nil
  then show ?case by simp
next
  case (Cons m ms)
  obtain sfx multiplier where m: "m = (sfx, multiplier)" by (cases m)
  show ?case
  proof (cases "endswith (upper s) sfx")
    case True
    with Cons.prems m obtain x where x: "py_float (butlast s) = Inr x"
      and n: "int_of_float (float_mul x multiplier) = Inr n"
      by (auto split: sum.splits)
    from Cons.prems(1) have "CHR ''-'' \<notin> set (butlast s)"
      by (auto dest: in_set_butlastD)
    from py_float_nonneg [OF this x] have "\<not> is_negative (float_mul x multiplier)"
      by (simp add: float_mul_sign)
    with n show ?thesis by (rule int_of_float_nonneg)
  next
    case False
    with Cons m show ?thesis by simp
  qed
qed

text \<open>
  C4: when the detection and the numeric conversion of the detected token both succeed,
  the size hint is an integer, and it is not negative unless the token starts with a
  minus sign.
\<close>

theorem size_hint_sign:
  assumes "detect_humanized_number some_string = Inr token"
    and "parse_humanized_string token = Inr n"
    and "hd token \<noteq> CHR ''-''"
  shows "0 \<le> n"
proof -
  from assms(1) have "re_search humanized_regex some_string = Some token"
    by (simp add: detect_humanized_number_def split: option.splits)
  from re_search_sound [OF this] have "matches humanized_regex token"
    by blast
  from humanized_minus_only_first [OF this assms(3)] have "CHR ''-'' \<notin> set (strip token)"
    using set_strip [of token] by blast
  then have no: "CHR ''-'' \<notin> set (upper (strip token))"
    by (rule minus_not_upper)
  show ?thesis
  proof (cases "parse_suffixes (upper (strip token)) multipliers")
    case None
    with assms(2) have "py_int (upper (strip token)) = Inr n"
      by (simp add: parse_humanized_string_def Let_def split: sum.splits)
    with no show ?thesis by (rule py_int_nonneg)
  next
    case (Some r)
    with assms(2) have "parse_suffixes (upper (strip token)) multipliers = Some (Inr n)"
      by (simp add: parse_humanized_string_def Let_def)
    with no show ?thesis by (rule parse_suffixes_nonneg)
  qed
qed

theorem size_hint_sign_witness:
  "detect_humanized_number ''db_5K.bz2'' = Inr ''5K''
   \<and> parse_humanized_string ''5K'' = Inr 5000
   \<and> hd ''5K'' \<noteq> CHR ''-''
   \<and> (0::int) \<le> 5000"
proof -
  have d: "detect_humanized_number ''db_5K.bz2'' = Inr ''5K''"
    by (simp add: regex_eval hint_eval)
  have p: "parse_humanized_string ''5K'' = Inr 5000"
    by (simp add: string_eval regex_eval float_eval hint_eval)
  have h: "hd ''5K'' \<noteq> CHR ''-''"
    by simp
  from size_hint_sign [OF d p h] d p h show ?thesis by simp
qed

theorem size_hint_negative_counterexample:
  "detect_humanized_number ''data-5K.bz2'' = Inr ''-5K''
   \<and> parse_humanized_string ''-5K'' = Inr (- 5000)
   \<and> (- 5000 :: int) < 0"
  by (simp add: string_eval regex_eval float_eval hint_eval)

section \<open>The stride\<close>

lemma bit_length_le_iff: "bit_length n \<le> k \<longleftrightarrow> n < 2 ^ k"
proof (induction n arbitrary: k rule: bit_length.induct)
  case (1 n)
  show ?case
  proof (cases "n = 0")
    case True
    then show ?thesis by (simp add: bit_length.simps)
  next
    case False
    show ?thesis
    proof (cases k)
      case 0
      with False show ?thesis by (simp add: bit_length.simps)
    next
      case (Suc j)
      have "bit_length (n div 2) \<le> j \<longleftrightarrow> n div 2 < 2 ^ j"
        using 1 False by simp
      moreover have "n div 2 < 2 ^ j \<longleftrightarrow> n < 2 * 2 ^ j"
        by linarith
      ultimately show ?thesis
        using False Suc by (simp add: bit_length.simps [of n])
    qed
  qed
qed

lemma bit_length_mono: "p \<le> q \<Longrightarrow> bit_length p \<le> bit_length q"
proof -
  assume "p \<le> q"
  have "q < 2 ^ bit_length q"
    using bit_length_le_iff [of q "bit_length q"] by simp
  with \<open>p \<le> q\<close> have "p < 2 ^ bit_length q" by simp
  then show ?thesis by (simp add: bit_length_le_iff)
qed

lemma binade_neg:
  assumes "p < q"
  shows "binade p q \<le> - 1"
proof -
  have d: "int (bit_length p) - int (bit_length q) \<le> 0"
    using bit_length_mono [of p q] assms by simp
  show ?thesis
  proof (cases "int (bit_length p) - int (bit_length q) = 0")
    case True
    with assms show ?thesis by (simp add: binade_def)
  next
    case False
    with d show ?thesis by (simp add: binade_def Let_def)
  qed
qed

lemma round_half_even_le: "round_half_even p q \<le> Suc (p div q)"
  by (simp add: round_half_even_def Let_def)

lemma stride_zero:
  assumes "0 \<le> total_lines" and "total_lines < num_lines" and "num_lines < 2 ^ 53"
  shows "stride total_lines num_lines = Inr 0"
proof (cases "total_lines = 0")
  case True
  with assms show ?thesis
    by (simp add: stride_def int_truediv_def rnd64_def)
next
  case False
  define p where "p = nat total_lines"
  define q where "q = nat num_lines"
  define sh where "sh = max (binade p q) (- 1022) - 52"
  define k where "k = nat (- sh)"
  define n where "n = round_half_even (p * 2 ^ k) q"
  have pq: "0 < p" "p < q" "q < 2 ^ 53"
    using assms False by (simp_all add: p_def q_def nat_less_iff)
  have sh: "sh \<le> - 53"
    using binade_neg [OF pq(2)] by (simp add: sh_def)
  then have k: "53 \<le> k" "sh = - int k" "nat sh = 0"
    by (simp_all add: k_def)
  have "(2::nat) ^ 53 \<le> 2 ^ k"
    using k(1) by (intro power_increasing) simp_all
  with pq have qk: "q < 2 ^ k" by simp
  have "Suc p \<le> q" using pq by simp
  then have "Suc p * 2 ^ k \<le> q * 2 ^ k" by (rule mult_le_mono1)
  then have "p * 2 ^ k + q < q * 2 ^ k" using qk by simp
  then have "p * 2 ^ k < (2 ^ k - 1) * q"
    by (simp add: algebra_simps)
  then have "p * 2 ^ k div q < 2 ^ k - 1"
    using pq by (simp add: div_less_iff_less_mult)
  then have nk: "n < 2 ^ k"
    using round_half_even_le [of "p * 2 ^ k" q] by (simp add: n_def)
  then have "bit_length n \<le> k" by (simp add: bit_length_le_iff)
  then have fin: "\<not> 1024 < int (bit_length n) + sh" using k by simp
  have r: "rnd64 False p q = Finite False n sh"
    using pq(1) fin k by (simp add: rnd64_def Let_def sh_def [symmetric] k_def [symmetric] n_def [symmetric])
  have signs: "\<not> total_lines < 0" "\<not> num_lines < 0" "num_lines \<noteq> 0"
    "nat \<bar>total_lines\<bar> = p" "nat \<bar>num_lines\<bar> = q"
    using assms by (simp_all add: p_def q_def)
  have "int_truediv total_lines num_lines = Inr (Finite False n sh)"
    by (simp add: int_truediv_def signs r)
  then show ?thesis
    using nk k by (simp add: stride_def)
qed

section \<open>The sampling loop\<close>

lemma sample_loop_nths:
  "1 \<le> num \<Longrightarrow>
     sample_loop num g afile chosen = Inr (chosen @ nths afile {i. draw num g i = 0})"
proof (induction afile arbitrary: g chosen)
  case Nil
  then show ?case by simp
next
  case (Cons aline rest)
  have "{j. draw num g (Suc j) = 0} = {i. draw num (\<lambda>i. g (Suc i)) i = 0}"
    by (simp add: draw_def)
  with Cons show ?case
    by (simp add: randrange_def nths_Cons draw_def)
qed

lemma subseq_nths: "subseq (nths xs I) xs"
  by (induction xs arbitrary: I) (auto simp: nths_Cons)

lemma sample_loop_empty_range:
  "num \<le> 0 \<Longrightarrow> afile \<noteq> [] \<Longrightarrow>
     sample_loop num g afile chosen = Inl (ValueError ''empty range for randrange()'')"
  by (cases afile) (simp_all add: randrange_def)

text \<open>
  C1: when the target count exceeds the size hint (both below \<open>2 ^ 53\<close>, the hint not
  negative), the stride is 0 and is not replaced by 1: \<^verbatim>\<open>sample_bz2\<close> raises at the first
  line, from \<^verbatim>\<open>random.randrange(0)\<close>.  Only on a source without lines does it return, and
  then the empty list.
\<close>

theorem sample_bz2_target_exceeds_hint:
  assumes "size_hint file_path = Inr total_lines"
    and "0 \<le> total_lines"
    and "total_lines < num_lines"
    and "num_lines < 2 ^ 53"
  shows "sample_bz2 file_path num_lines g afile =
           (if afile = [] then Inr [] else Inl (ValueError ''empty range for randrange()''))"
proof (cases "afile = []")
  case True
  then show ?thesis
    by (simp add: sample_bz2_def assms(1) stride_zero [OF assms(2-4)])
next
  case False
  then show ?thesis
    by (simp add: sample_bz2_def assms(1) stride_zero [OF assms(2-4)] sample_loop_empty_range)
qed

theorem sample_bz2_target_exceeds_hint_witness:
  "size_hint ''db_5K.bz2'' = Inr 5000 \<and> (0::int) \<le> 5000 \<and> (5000::int) < 10000
   \<and> (10000::int) < 2 ^ 53
   \<and> sample_bz2 ''db_5K.bz2'' 10000 (\<lambda>i. i) [''a'', ''b''] =
       Inl (ValueError ''empty range for randrange()'')"
proof -
  have h: "size_hint ''db_5K.bz2'' = Inr 5000"
    by (simp add: string_eval regex_eval float_eval hint_eval)
  show ?thesis
    using sample_bz2_target_exceeds_hint [OF h, of 10000 "\<lambda>i. i" "[''a'', ''b'']"] h by simp
qed

theorem sample_bz2_no_unit_stride_counterexample:
  "size_hint ''db_5K.bz2'' = Inr 5000
   \<and> sample_bz2 ''db_5K.bz2'' 10000 (\<lambda>i. 0) [''a''] =
       Inl (ValueError ''empty range for randrange()'')"
  by (simp add: string_eval regex_eval float_eval hint_eval sample_bz2_def stride_def
      randrange_def)

text \<open>
  C2: whenever the stride computed from the size hint is at least 1, \<^verbatim>\<open>sample_bz2\<close>
  returns the lines whose draw is 0, and only those, in the order of the file: a
  subsequence of the source, no longer than it.  Each draw lies in \<open>[0, stride)\<close>.
\<close>

theorem sample_bz2_subsequence:
  assumes "size_hint file_path = Inr total_lines"
    and "stride total_lines num_lines = Inr num"
    and "1 \<le> num"
  shows "sample_bz2 file_path num_lines g afile = Inr (nths afile {i. draw num g i = 0})
         \<and> subseq (nths afile {i. draw num g i = 0}) afile
         \<and> length (nths afile {i. draw num g i = 0}) \<le> length afile
         \<and> (\<forall>i. 0 \<le> draw num g i \<and> draw num g i < num)"
proof -
  have "sample_bz2 file_path num_lines g afile = Inr (nths afile {i. draw num g i = 0})"
    using assms by (simp add: sample_bz2_def sample_loop_nths)
  moreover have "length (nths afile {i. draw num g i = 0}) \<le> length afile"
    using subseq_nths [of afile] by (rule list_emb_length)
  moreover have "\<forall>i. 0 \<le> draw num g i \<and> draw num g i < num"
    using assms(3) by (simp add: draw_def)
  ultimately show ?thesis
    by (simp add: subseq_nths)
qed

theorem sample_bz2_subsequence_witness:
  "size_hint ''db_10K.bz2'' = Inr 10000 \<and> stride 10000 5000 = Inr 2 \<and> (1::int) \<le> 2
   \<and> sample_bz2 ''db_10K.bz2'' 5000 (\<lambda>i. i) [''a'', ''b'', ''c''] = Inr [''a'', ''c'']"
proof -
  have h: "size_hint ''db_10K.bz2'' = Inr 10000"
    by (simp add: string_eval regex_eval float_eval hint_eval)
  have s: "stride 10000 5000 = Inr 2"
    by (simp add: stride_def float_eval)
  have n: "nths [''a'', ''b'', ''c''] {i. draw 2 (\<lambda>i. i) i = 0} = [''a'', ''c'']"
    by (simp add: nths_Cons draw_def)
  show ?thesis
    using sample_bz2_subsequence [OF h s, of "\<lambda>i. i" "[''a'', ''b'', ''c'']"] h s n by simp
qed

section \<open>The membership filter\<close>

lemma bloom_loop_filter: "bloom_loop bf qs acc = acc @ filter bf qs"
  by (induction qs arbitrary: acc) auto

text \<open>
  C6: when the structure loads, \<^verbatim>\<open>bloom_match\<close> returns one entry: its key is the stem of
  the path (the base name without its extension), its value the queries the structure
  reports as members, in input order and with their duplicates.
\<close>

theorem bloom_match_result:
  assumes "bloom_of w bloom_file = Some bf"
  shows "bloom_match w bloom_file smiles = Inr [(stem bloom_file, filter bf smiles)]
         \<and> subseq (filter bf smiles) smiles"
  using assms by (simp add: bloom_match_def bloom_loop_filter)

theorem bloom_match_result_witness:
  "bloom_of \<lparr>glob_of = (\<lambda>_. []), lines_of = (\<lambda>_. None), bloom_of = (\<lambda>_. Some (\<lambda>s. s = ''CCO''))\<rparr>
     ''filters/A.bloom'' = Some (\<lambda>s. s = ''CCO'')
   \<and> bloom_match \<lparr>glob_of = (\<lambda>_. []), lines_of = (\<lambda>_. None), bloom_of = (\<lambda>_. Some (\<lambda>s. s = ''CCO''))\<rparr>
       ''filters/A.bloom'' [''CCO'', ''CCN'', ''CCO''] = Inr [(''A'', [''CCO'', ''CCO''])]"
  using bloom_match_result [of "\<lparr>glob_of = (\<lambda>_. []), lines_of = (\<lambda>_. None),
      bloom_of = (\<lambda>_. Some (\<lambda>s. s = ''CCO''))\<rparr>" "''filters/A.bloom''" "\<lambda>s. s = ''CCO''"
      "[''CCO'', ''CCN'', ''CCO'']"]
  by (simp add: path_eval)

section \<open>Dictionaries and the merge\<close>

lemma map_of_dict_set: "map_of (dict_set k v d) = (map_of d)(k \<mapsto> v)"
  by (induction d) (auto simp: fun_eq_iff)

lemma keys_dict_set: "fst ` set (dict_set k v d) = insert k (fst ` set d)"
  by (simp add: dom_map_of_conv_image_fst [symmetric] map_of_dict_set)

lemma distinct_dict_set: "distinct (map fst d) \<Longrightarrow> distinct (map fst (dict_set k v d))"
  by (induction d) (auto simp: keys_dict_set)

lemma set_dict_set: "set (dict_set k v d) \<subseteq> insert (k, v) (set d)"
  by (induction d) (auto split: if_splits)

lemma foldl_dict_update:
  "foldl dict_update d (map (\<lambda>f. [(key f, val f)]) fs) =
     foldl (\<lambda>d f. dict_set (key f) (val f) d) d fs"
  by (induction fs arbitrary: d) (simp_all add: dict_update_def)

lemma keys_merge:
  "fst ` set (foldl (\<lambda>d f. dict_set (key f) (val f) d) d fs) = fst ` set d \<union> key ` set fs"
  by (induction fs arbitrary: d) (auto simp: keys_dict_set)

lemma distinct_merge:
  "distinct (map fst d) \<Longrightarrow> distinct (map fst (foldl (\<lambda>d f. dict_set (key f) (val f) d) d fs))"
  by (induction fs arbitrary: d) (simp_all add: distinct_dict_set)

lemma values_merge:
  "(k, v) \<in> set (foldl (\<lambda>d f. dict_set (key f) (val f) d) d fs) \<Longrightarrow>
     (k, v) \<in> set d \<or> (\<exists>f\<in>set fs. k = key f \<and> v = val f)"
proof (induction fs arbitrary: d)
  case Nil
  then show ?case by simp
next
  case (Cons f fs)
  from Cons.IH [of "dict_set (key f) (val f) d"] Cons.prems
  have "(k, v) \<in> set (dict_set (key f) (val f) d) \<or> (\<exists>f\<in>set fs. k = key f \<and> v = val f)"
    by simp
  then show ?case
    using set_dict_set [of "key f" "val f" d] by auto
qed

lemma lookup_merge:
  "map_of (foldl (\<lambda>d f. dict_set (key f) (val f) d) d fs) k =
     (if k \<in> key ` set fs then Some (val (last (filter (\<lambda>f. key f = k) fs))) else map_of d k)"
proof (induction fs rule: rev_induct)
  case Nil
  then show ?case by simp
next
  case (snoc f fs)
  then show ?case
    by (auto simp: map_of_dict_set)
qed

lemma pool_map_bloom_match:
  "pool_map (\<lambda>f. bloom_match w f smiles) fs = Inr results \<Longrightarrow>
     results = map (\<lambda>f. [(stem f, filter (the (bloom_of w f)) smiles)]) fs
     \<and> (\<forall>f\<in>set fs. bloom_of w f \<noteq> None)"
proof (induction fs arbitrary: results)
  case Nil
  then show ?case by simp
next
  case (Cons f fs)
  then show ?case
    by (auto simp: bloom_match_def bloom_loop_filter split: option.splits sum.splits)
qed

lemma unmatched_loop_map:
  "unmatched_loop matched qs d =
     map (\<lambda>(k, v). if k = ''unmatched'' then (k, v @ filter (\<lambda>s. s \<notin> set matched) qs) else (k, v)) d"
proof (induction qs arbitrary: d)
  case Nil
  show ?case by (induction d) auto
next
  case (Cons q qs)
  show ?case
    by (induction d) (auto simp: Cons.IH dict_append_def)
qed

lemma map_of_map_entry:
  "map_of (map (\<lambda>(k, v). if k = u then (k, g v) else (k, v)) d) k =
     (if k = u then map_option g (map_of d u) else map_of d k)"
  by (induction d) auto

lemma keys_map_entry:
  "map fst (map (\<lambda>(k, v). if k = u then (k, g v) else (k, v)) d) = map fst d"
  by (induction d) auto

lemma matched_of_map_entry:
  "matched_of (map (\<lambda>(k, v). if k = ''unmatched'' then (k, g v) else (k, v)) d) = matched_of d"
  by (induction d) (auto simp: matched_of_def)

lemma set_concat_reserved:
  assumes "\<forall>v. (''unmatched'', v) \<in> set d \<longrightarrow> v = []"
  shows "set (concat (map snd d)) = set (matched_of d)"
  using assms by (induction d) (auto simp: matched_of_def)

lemma add_unmatched_eq:
  assumes "distinct (map fst d)"
  shows "map_of (add_unmatched smiles d) ''unmatched'' =
           Some (filter (\<lambda>s. s \<notin> set (matched_of (add_unmatched smiles d))) smiles)
         \<and> matched_of (add_unmatched smiles d) = matched_of (dict_set ''unmatched'' [] d)
         \<and> map fst (add_unmatched smiles d) = map fst (dict_set ''unmatched'' [] d)
         \<and> (\<forall>k. k \<noteq> ''unmatched'' \<longrightarrow> map_of (add_unmatched smiles d) k = map_of d k)"
proof -
  let ?d0 = "dict_set ''unmatched'' [] d"
  have dist: "distinct (map fst ?d0)"
    using assms by (rule distinct_dict_set)
  have "map_of ?d0 ''unmatched'' = Some []"
    by (simp add: map_of_dict_set)
  then have "(''unmatched'', []) \<in> set ?d0"
    by (rule map_of_SomeD)
  with dist have "\<forall>v. (''unmatched'', v) \<in> set ?d0 \<longrightarrow> v = []"
    by (blast dest: eq_key_imp_eq_value)
  then have m: "set (concat (map snd ?d0)) = set (matched_of ?d0)"
    by (rule set_concat_reserved)
  define um where "um = filter (\<lambda>s. s \<notin> set (concat (map snd ?d0))) smiles"
  have um: "um = filter (\<lambda>s. s \<notin> set (matched_of ?d0)) smiles"
    unfolding um_def m ..
  have eq: "add_unmatched smiles d =
      map (\<lambda>(k, v). if k = ''unmatched'' then (k, (\<lambda>v. v @ um) v) else (k, v)) ?d0"
    unfolding add_unmatched_def Let_def unmatched_loop_map um_def ..
  have 1: "matched_of (add_unmatched smiles d) = matched_of ?d0"
    unfolding eq by (rule matched_of_map_entry)
  have 2: "map fst (add_unmatched smiles d) = map fst ?d0"
    unfolding eq by (rule keys_map_entry)
  have 3: "map_of (add_unmatched smiles d) k =
      (if k = ''unmatched'' then map_option (\<lambda>v. v @ um) (map_of ?d0 ''unmatched'') else map_of ?d0 k)" for k
    unfolding eq by (rule map_of_map_entry)
  have 4: "map_of (add_unmatched smiles d) ''unmatched'' = Some um"
    by (simp add: 3 map_of_dict_set)
  have 5: "\<forall>k. k \<noteq> ''unmatched'' \<longrightarrow> map_of (add_unmatched smiles d) k = map_of d k"
    by (simp add: 3 map_of_dict_set)
  show ?thesis
    using 1 2 4 5 um by simp
qed

section \<open>The coordinator\<close>

text \<open>
  C8: when the glob pattern expands to no file, the run raises before anything is handed
  to the pool, and nothing is written.
\<close>

theorem find_matches_empty_glob:
  assumes "glob_of w glob_exp = []"
  shows "find_matches w glob_exp num_procs smiles_file include_unmatched =
           ([], Inl (ValueError
                  (''No bloom filters found using the glob expression: '' @ glob_exp)))"
  using assms by (simp add: find_matches_def)

theorem find_matches_empty_glob_witness:
  "glob_of \<lparr>glob_of = (\<lambda>_. []), lines_of = (\<lambda>_. Some [''CCO'']), bloom_of = (\<lambda>_. None)\<rparr>
     ''*.bloom'' = []
   \<and> find_matches \<lparr>glob_of = (\<lambda>_. []), lines_of = (\<lambda>_. Some [''CCO'']), bloom_of = (\<lambda>_. None)\<rparr>
       ''*.bloom'' (- 1) ''q.smi'' True =
     ([], Inl (ValueError ''No bloom filters found using the glob expression: *.bloom''))"
  using find_matches_empty_glob [of "\<lparr>glob_of = (\<lambda>_. []), lines_of = (\<lambda>_. Some [''CCO'']),
      bloom_of = (\<lambda>_. None)\<rparr>" "''*.bloom''" "- 1" "''q.smi''" True]
  by simp

lemma find_matches_success:
  assumes run: "find_matches w glob_exp num_procs smiles_file iu = (tasks, Inr rd)"
    and lines: "lines_of w smiles_file = Some in_file"
  shows "tasks = glob_of w glob_exp \<and> (\<forall>f\<in>set (glob_of w glob_exp). bloom_of w f \<noteq> None)
    \<and> rd = (let merged = foldl (\<lambda>d f. dict_set (stem f)
                   (filter (the (bloom_of w f)) (map strip in_file)) d) [] (glob_of w glob_exp)
            in if iu then add_unmatched (map strip in_file) merged else merged)"
proof -
  let ?files = "glob_of w glob_exp" and ?smiles = "map strip in_file"
  have ne: "?files \<noteq> []"
  proof
    assume "?files = []"
    then have "snd (find_matches w glob_exp num_procs smiles_file iu) =
        Inl (ValueError (''No bloom filters found using the glob expression: '' @ glob_exp))"
      by (simp add: find_matches_def)
    with run show False by simp
  qed
  have eq: "find_matches w glob_exp num_procs smiles_file iu =
      (?files, case pool_map (\<lambda>f. bloom_match w f ?smiles) ?files of
                 Inl e \<Rightarrow> Inl e
               | Inr results \<Rightarrow>
                   Inr (if iu then add_unmatched ?smiles (foldl dict_update [] results)
                        else foldl dict_update [] results))"
    unfolding find_matches_def Let_def using ne lines by simp
  from run eq have t: "tasks = ?files" by simp
  obtain results where pm: "pool_map (\<lambda>f. bloom_match w f ?smiles) ?files = Inr results"
    and rd: "rd = (if iu then add_unmatched ?smiles (foldl dict_update [] results)
                   else foldl dict_update [] results)"
  proof (cases "pool_map (\<lambda>f. bloom_match w f ?smiles) ?files")
    case (Inl e)
    with run eq show ?thesis by simp
  next
    case (Inr results)
    with run eq that show ?thesis by simp
  qed
  note pb = pool_map_bloom_match [OF pm]
  have "foldl dict_update [] results =
      foldl (\<lambda>d f. dict_set (stem f) (filter (the (bloom_of w f)) ?smiles) d) [] ?files"
    using pb foldl_dict_update [of "[]" stem "\<lambda>f. filter (the (bloom_of w f)) ?smiles" ?files]
    by simp
  with t pb rd show ?thesis by (simp add: Let_def)
qed


lemma matched_of_subset:
  "\<forall>kv\<in>set d. set (snd kv) \<subseteq> A \<Longrightarrow> set (matched_of d) \<subseteq> A"
  by (auto simp: matched_of_def)

lemma matched_of_dict_set_reserved:
  "matched_of (dict_set ''unmatched'' v d) = matched_of d"
  by (induction d) (auto simp: matched_of_def)

text \<open>
  C7: in a run with \<^verbatim>\<open>include_unmatched\<close> that completes, the matched sequences together
  with the sequence at \<^verbatim>\<open>"unmatched"\<close> make up the set of the queries, no query is in a
  matched sequence and in \<^verbatim>\<open>"unmatched"\<close>, and \<^verbatim>\<open>"unmatched"\<close> lists the queries that no
  matched sequence contains, in the order of the query file.
\<close>

theorem find_matches_unmatched_partition:
  assumes run: "find_matches w glob_exp num_procs smiles_file True = (tasks, Inr results_dict)"
    and lines: "lines_of w smiles_file = Some in_file"
  shows "\<exists>unmatched. map_of results_dict ''unmatched'' = Some unmatched
           \<and> distinct (map fst results_dict)
           \<and> set (matched_of results_dict) \<union> set unmatched = set (map strip in_file)
           \<and> set (matched_of results_dict) \<inter> set unmatched = {}
           \<and> unmatched = filter (\<lambda>s. s \<notin> set (matched_of results_dict)) (map strip in_file)
           \<and> subseq unmatched (map strip in_file)"
proof -
  let ?smiles = "map strip in_file"
  define merged where "merged = foldl (\<lambda>d f. dict_set (stem f)
      (filter (the (bloom_of w f)) ?smiles) d) [] (glob_of w glob_exp)"
  define unmatched where
    "unmatched = filter (\<lambda>s. s \<notin> set (matched_of results_dict)) ?smiles"
  have rd: "results_dict = add_unmatched ?smiles merged"
    using find_matches_success [OF run lines] by (simp add: merged_def Let_def)
  have dist: "distinct (map fst merged)"
    unfolding merged_def by (rule distinct_merge) simp
  note au = add_unmatched_eq [OF dist, of ?smiles, folded rd]
  have "set (snd kv) \<subseteq> set ?smiles" if "kv \<in> set merged" for kv
    using values_merge [of "fst kv" "snd kv" stem
        "\<lambda>f. filter (the (bloom_of w f)) (map strip in_file)" "[]" "glob_of w glob_exp"] that
    by (auto simp: merged_def)
  then have "\<forall>kv\<in>set merged. set (snd kv) \<subseteq> set ?smiles"
    by blast
  then have "set (matched_of merged) \<subseteq> set ?smiles"
    by (rule matched_of_subset)
  then have sub: "set (matched_of results_dict) \<subseteq> set ?smiles"
    using au by (simp add: matched_of_dict_set_reserved)
  have "map_of results_dict ''unmatched'' = Some unmatched"
    using au by (simp add: unmatched_def)
  moreover have "distinct (map fst results_dict)"
    using au dist by (simp add: distinct_dict_set)
  moreover have "set (matched_of results_dict) \<union> set unmatched = set ?smiles"
    using sub by (auto simp: unmatched_def)
  moreover have "set (matched_of results_dict) \<inter> set unmatched = {}"
    by (auto simp: unmatched_def)
  moreover have "subseq unmatched ?smiles"
    by (simp add: unmatched_def)
  ultimately show ?thesis
    using unmatched_def by blast
qed

theorem find_matches_unmatched_partition_witness:
  "find_matches scenario_world ''*.bloom'' (- 1) ''q.smi'' True =
     ([''A.bloom'', ''B.bloom''],
      Inr [(''A'', [''CCO'']), (''B'', [''CCN'']), (''unmatched'', [''CCC''])])
   \<and> lines_of scenario_world ''q.smi'' = Some [''CCO'', ''CCN'', ''CCC'']
   \<and> (\<exists>unmatched.
         map_of [(''A'', [''CCO'']), (''B'', [''CCN'']), (''unmatched'', [''CCC''])] ''unmatched'' =
           Some unmatched
         \<and> set (matched_of [(''A'', [''CCO'']), (''B'', [''CCN'']), (''unmatched'', [''CCC''])])
             \<union> set unmatched = set [''CCO'', ''CCN'', ''CCC''])"
proof -
  have run: "find_matches scenario_world ''*.bloom'' (- 1) ''q.smi'' True =
     ([''A.bloom'', ''B.bloom''],
      Inr [(''A'', [''CCO'']), (''B'', [''CCN'']), (''unmatched'', [''CCC''])])"
    by (simp add: run_eval path_eval string_eval Let_def)
  have lines: "lines_of scenario_world ''q.smi'' = Some [''CCO'', ''CCN'', ''CCC'']"
    by (simp add: scenario_world_def)
  have strip: "map strip [''CCO'', ''CCN'', ''CCC''] = [''CCO'', ''CCN'', ''CCC'']"
    by (simp add: string_eval)
  from find_matches_unmatched_partition [OF run lines]
  show ?thesis
    unfolding strip using run lines by blast
qed

text \<open>
  C9: in a run that completes, every globbed path is handed to the pool, the keys of the
  result are distinct and are the stems of the globbed paths, plus \<^verbatim>\<open>"unmatched"\<close> when it
  is requested; the value at a stem is the result of the last path of the list with that
  stem, except at \<^verbatim>\<open>"unmatched"\<close> when that key is requested.
\<close>

theorem find_matches_keys_and_overwrite:
  assumes run: "find_matches w glob_exp num_procs smiles_file include_unmatched =
                  (tasks, Inr results_dict)"
    and lines: "lines_of w smiles_file = Some in_file"
  shows "tasks = glob_of w glob_exp
         \<and> distinct (map fst results_dict)
         \<and> fst ` set results_dict =
             stem ` set (glob_of w glob_exp)
               \<union> (if include_unmatched then {''unmatched''} else {})
         \<and> (\<forall>k bf. k \<in> stem ` set (glob_of w glob_exp)
                \<and> \<not> (include_unmatched \<and> k = ''unmatched'')
                \<and> bloom_of w (last (filter (\<lambda>p. stem p = k) (glob_of w glob_exp))) = Some bf
              \<longrightarrow> map_of results_dict k = Some (filter bf (map strip in_file)))"
proof -
  let ?smiles = "map strip in_file" and ?files = "glob_of w glob_exp"
  define merged where "merged = foldl (\<lambda>d f. dict_set (stem f)
      (filter (the (bloom_of w f)) ?smiles) d) [] ?files"
  note s = find_matches_success [OF run lines, folded merged_def]
  have rd: "results_dict = (if include_unmatched then add_unmatched ?smiles merged else merged)"
    using s by (simp add: Let_def merged_def)
  have dist: "distinct (map fst merged)"
    unfolding merged_def by (rule distinct_merge) simp
  have keys: "fst ` set merged = stem ` set ?files"
    unfolding merged_def by (simp add: keys_merge)
  have look: "map_of merged k = Some (filter bf ?smiles)"
    if "k \<in> stem ` set ?files"
      and "bloom_of w (last (filter (\<lambda>p. stem p = k) ?files)) = Some bf" for k bf
    using that unfolding merged_def by (simp add: lookup_merge)
  note au = add_unmatched_eq [OF dist, of ?smiles]
  have 1: "distinct (map fst results_dict)"
    using au dist by (simp add: rd distinct_dict_set)
  from au have "map fst (add_unmatched ?smiles merged) =
      map fst (dict_set ''unmatched'' [] merged)"
    by simp
  then have "set (map fst (add_unmatched ?smiles merged)) =
      set (map fst (dict_set ''unmatched'' [] merged))"
    by simp
  then have "fst ` set (add_unmatched ?smiles merged) = insert ''unmatched'' (stem ` set ?files)"
    using keys by (simp add: keys_dict_set)
  then have 2: "fst ` set results_dict =
      stem ` set ?files \<union> (if include_unmatched then {''unmatched''} else {})"
    using keys by (simp add: rd)
  have 3: "map_of results_dict k = Some (filter bf ?smiles)"
    if "k \<in> stem ` set ?files" and "\<not> (include_unmatched \<and> k = ''unmatched'')"
      and "bloom_of w (last (filter (\<lambda>p. stem p = k) ?files)) = Some bf" for k bf
    using look [OF that(1,3)] that(2) au by (auto simp: rd)
  from s 1 2 3 show ?thesis by blast
qed

theorem find_matches_keys_and_overwrite_witness:
  "find_matches duplicate_world ''*.bloom'' (- 1) ''q.smi'' False =
     ([''x/A.bloom'', ''y/A.bloom''], Inr [(''A'', [''CCN''])])
   \<and> lines_of duplicate_world ''q.smi'' = Some [''CCO'', ''CCN'', ''CCC'']
   \<and> fst ` set [(''A'', [''CCN''])] = stem ` set (glob_of duplicate_world ''*.bloom'')
   \<and> last (filter (\<lambda>p. stem p = ''A'') (glob_of duplicate_world ''*.bloom'')) = ''y/A.bloom''
   \<and> map_of [(''A'', [''CCN''])] ''A'' =
       Some (filter (\<lambda>s. s = ''CCN'') (map strip [''CCO'', ''CCN'', ''CCC'']))"
proof -
  have run: "find_matches duplicate_world ''*.bloom'' (- 1) ''q.smi'' False =
     ([''x/A.bloom'', ''y/A.bloom''], Inr [(''A'', [''CCN''])])"
    by (simp add: run_eval path_eval string_eval Let_def)
  have lines: "lines_of duplicate_world ''q.smi'' = Some [''CCO'', ''CCN'', ''CCC'']"
    by (simp add: duplicate_world_def)
  have later: "last (filter (\<lambda>p. stem p = ''A'') (glob_of duplicate_world ''*.bloom'')) =
      ''y/A.bloom''"
    by (simp add: duplicate_world_def path_eval)
  have bf: "bloom_of duplicate_world ''y/A.bloom'' = Some (\<lambda>s. s = ''CCN'')"
    by (simp add: duplicate_world_def)
  have key: "''A'' \<in> stem ` set (glob_of duplicate_world ''*.bloom'')"
    by (simp add: duplicate_world_def path_eval)
  have bf': "bloom_of duplicate_world
      (last (filter (\<lambda>p. stem p = ''A'') (glob_of duplicate_world ''*.bloom''))) =
      Some (\<lambda>s. s = ''CCN'')"
    by (simp only: later bf)
  note claim = find_matches_keys_and_overwrite [OF run lines]
  from claim have "fst ` set [(''A'', [''CCN''])] = stem ` set (glob_of duplicate_world ''*.bloom'')"
    by simp
  moreover from claim key bf' have "map_of [(''A'', [''CCN''])] ''A'' =
       Some (filter (\<lambda>s. s = ''CCN'') (map strip [''CCO'', ''CCN'', ''CCC'']))"
    by blast
  ultimately have "fst ` set [(''A'', [''CCN''])] = stem ` set (glob_of duplicate_world ''*.bloom'')"
    and "map_of [(''A'', [''CCN''])] ''A'' =
       Some (filter (\<lambda>s. s = ''CCN'') (map strip [''CCO'', ''CCN'', ''CCC'']))"
    by blast+
  with run lines later show ?thesis by blast
qed

theorem find_matches_reserved_key_counterexample:
  "find_matches reserved_world ''*.bloom'' (- 1) ''q.smi'' True =
     ([''x/unmatched.bloom'', ''y/unmatched.bloom''],
      Inr [(''unmatched'', [''CCO'', ''CCN'', ''CCC''])])
   \<and> bloom_match reserved_world ''y/unmatched.bloom'' [''CCO'', ''CCN'', ''CCC''] =
       Inr [(''unmatched'', [''CCN''])]"
  by (simp add: run_eval path_eval string_eval bloom_loop_filter Let_def)

end
